theory Spec2Isabelle
  imports Complex_Main "HOL-Library.Word"
begin

section \<open>Integer arithmetic of the program\<close>

text \<open>
  The program computes with C++ \<open>int\<close>, a 32-bit two's complement integer on the
  targets of the program. Its values are modelled as \<open>int\<close>. Signed overflow has no
  defined result in C++; the machine reduces the result to the 32-bit range, and so does
  the model: \<open>wrap32\<close> is that reduction, \<open>mul32\<close> and \<open>add32\<close> are the machine's
  product and sum. They are used for every product and sum of the program that can leave
  the range: \<open>newHeight * localInHeight\<close>, \<open>y * inHeight\<close>, the pixel offsets, the buffer
  length of the resampler and the counts and offsets of the gather. The row arithmetic of
  the planner is left on \<open>int\<close>: none of its values exceeds \<open>height\<close>
  (lemma \<open>planner_values_bounded\<close>). The length \<open>width * height * channels\<close> of the
  filter is left on \<open>int\<close> as well: the theorems about the filter take it to be the
  length of the block. A loop counter is only incremented below its bound, so the increment
  is exact. Division truncates towards zero, and the remainder takes the
  sign of the dividend. Both are only defined for a divisor other than zero: every caller
  below either checks the divisor or is stated for a positive one.
\<close>

definition INT_MAX :: int where
  "INT_MAX = 2147483647"

definition wrap32 :: "int \<Rightarrow> int" where
  "wrap32 v = (v + 2147483648) mod 4294967296 - 2147483648"

definition mul32 :: "int \<Rightarrow> int \<Rightarrow> int" where
  "mul32 a b = wrap32 (a * b)"

definition add32 :: "int \<Rightarrow> int \<Rightarrow> int" where
  "add32 a b = wrap32 (a + b)"

definition c_div :: "int \<Rightarrow> int \<Rightarrow> int" where
  "c_div a b = sgn a * sgn b * (\<bar>a\<bar> div \<bar>b\<bar>)"

definition c_mod :: "int \<Rightarrow> int \<Rightarrow> int" where
  "c_mod a b = a - c_div a b * b"

section \<open>Partition planner (\<open>main\<close>, the row arithmetic of every rank)\<close>

text \<open>
  \<^verbatim>\<open>int rowsPerProc = height / size;\<close>
  \<^verbatim>\<open>int remainder = height % size;\<close>
  \<^verbatim>\<open>int localInHeight = rowsPerProc + (rank < remainder ? 1 : 0);\<close>
  \<^verbatim>\<open>int startRow = rank * rowsPerProc + std::min(rank, remainder);\<close>
  The number of processes \<open>size\<close> is written \<open>sz\<close>.
\<close>

definition rowsPerProc :: "int \<Rightarrow> int \<Rightarrow> int" where
  "rowsPerProc height sz = c_div height sz"

definition remainder :: "int \<Rightarrow> int \<Rightarrow> int" where
  "remainder height sz = c_mod height sz"

definition localInHeight :: "int \<Rightarrow> int \<Rightarrow> int \<Rightarrow> int" where
  "localInHeight height sz rank =
     rowsPerProc height sz + (if rank < remainder height sz then 1 else 0)"

definition startRow :: "int \<Rightarrow> int \<Rightarrow> int \<Rightarrow> int" where
  "startRow height sz rank =
     rank * rowsPerProc height sz + min rank (remainder height sz)"

text \<open>
  \<^verbatim>\<open>int localOutHeight = newHeight * localInHeight / height;\<close>
\<close>

definition localOutHeight :: "int \<Rightarrow> int \<Rightarrow> int \<Rightarrow> int \<Rightarrow> int" where
  "localOutHeight newHeight height sz rank =
     c_div (mul32 newHeight (localInHeight height sz rank)) height"



section \<open>Row resampler (\<open>resize_rows\<close>)\<close>

text \<open>
  A pixel buffer \<open>std::vector<unsigned char>\<close> is a list of bytes. Indexing a vector with
  \<open>operator[]\<close> is unchecked in C++; the model returns \<open>OutOfBounds\<close> where the program
  would read or write outside the buffer, \<open>DivisionByZero\<close> where it would divide by zero,
  and \<open>BadLength\<close> where it would construct a vector of negative length.
\<close>

type_synonym byte = "8 word"

datatype error = DivisionByZero | OutOfBounds | BadLength

text \<open>
  The offset of a byte in a buffer, \<open>(row * width + x) * channels + c\<close>, as the machine
  computes it.
\<close>

definition pixel_offset :: "int \<Rightarrow> int \<Rightarrow> int \<Rightarrow> int \<Rightarrow> int \<Rightarrow> int" where
  "pixel_offset row width x channels c = add32 (mul32 (add32 (mul32 row width) x) channels) c"

text \<open>
  The three nested loops of \<open>resize_rows\<close>, innermost first: over the channels \<open>c\<close>,
  over the columns \<open>x\<close> and over the output rows \<open>y\<close>.
  \<^verbatim>\<open>for (int y = 0; y < outHeight; ++y) {\<close>
  \<^verbatim>\<open>    int srcY = y * inHeight / outHeight;\<close>
  \<^verbatim>\<open>    for (int x = 0; x < width; ++x)\<close>
  \<^verbatim>\<open>        for (int c = 0; c < channels; ++c)\<close>
  \<^verbatim>\<open>            out[(y * width + x) * channels + c] = data[(srcY * width + x) * channels + c]; }\<close>
\<close>

function resize_rows_c ::
  "byte list \<Rightarrow> int \<Rightarrow> int \<Rightarrow> int \<Rightarrow> int \<Rightarrow> int \<Rightarrow> int \<Rightarrow> byte list \<Rightarrow> error + byte list" where
  "resize_rows_c data width channels srcY y x c out =
     (if c < channels then
        (let dst = pixel_offset y width x channels c;
             src = pixel_offset srcY width x channels c
         in if src < 0 \<or> int (length data) \<le> src then Inl OutOfBounds
            else if dst < 0 \<or> int (length out) \<le> dst then Inl OutOfBounds
            else resize_rows_c data width channels srcY y x (c + 1)
                   (out[nat dst := data ! nat src]))
      else Inr out)"
  by pat_completeness auto
termination
  by (relation "measure (\<lambda>(data, width, channels, srcY, y, x, c, out). nat (channels - c))") auto

function resize_rows_x ::
  "byte list \<Rightarrow> int \<Rightarrow> int \<Rightarrow> int \<Rightarrow> int \<Rightarrow> int \<Rightarrow> byte list \<Rightarrow> error + byte list" where
  "resize_rows_x data width channels srcY y x out =
     (if x < width then
        (case resize_rows_c data width channels srcY y x 0 out of
           Inl e \<Rightarrow> Inl e
         | Inr out' \<Rightarrow> resize_rows_x data width channels srcY y (x + 1) out')
      else Inr out)"
  by pat_completeness auto
termination
  by (relation "measure (\<lambda>(data, width, channels, srcY, y, x, out). nat (width - x))") auto

function resize_rows_y ::
  "byte list \<Rightarrow> int \<Rightarrow> int \<Rightarrow> int \<Rightarrow> int \<Rightarrow> int \<Rightarrow> byte list \<Rightarrow> error + byte list" where
  "resize_rows_y data width inHeight outHeight channels y out =
     (if y < outHeight then
        (if outHeight = 0 then Inl DivisionByZero
         else (let srcY = c_div (mul32 y inHeight) outHeight
               in case resize_rows_x data width channels srcY y 0 out of
                    Inl e \<Rightarrow> Inl e
                  | Inr out' \<Rightarrow> resize_rows_y data width inHeight outHeight channels (y + 1) out'))
      else Inr out)"
  by pat_completeness auto
termination
  by (relation "measure (\<lambda>(data, width, inHeight, outHeight, channels, y, out). nat (outHeight - y))") auto

text \<open>
  \<^verbatim>\<open>std::vector<unsigned char> out(width * outHeight * channels);\<close>
  The vector is filled with zero bytes before the loops run.
\<close>

definition resize_rows :: "byte list \<Rightarrow> int \<Rightarrow> int \<Rightarrow> int \<Rightarrow> int \<Rightarrow> error + byte list" where
  "resize_rows data width inHeight outHeight channels =
     (let n = mul32 (mul32 width outHeight) channels
      in if n < 0 then Inl BadLength
         else resize_rows_y data width inHeight outHeight channels 0 (replicate (nat n) 0))"

section \<open>Pixel filter (\<open>apply_filter\<close>)\<close>

text \<open>
  The contrast filter computes in \<open>float\<close>, taken to be IEEE 754 single precision with
  every operation rounded to the nearest value, ties to even. All values that occur are
  integer multiples of \<open>2^-23\<close> between \<open>-2^9\<close> and \<open>2^9\<close>, so a value \<open>v\<close> is
  represented by the integer \<open>v * 2^23\<close>. A single precision number has 24 significant
  bits: \<open>round_f32\<close> keeps the 24 leading bits of its argument and rounds the rest.
\<close>

function bit_length :: "int \<Rightarrow> nat" where
  "bit_length a = (if a \<le> 0 then 0 else Suc (bit_length (a div 2)))"
  by pat_completeness auto
termination
  by (relation "measure nat") auto

definition round_half_even :: "int \<Rightarrow> int \<Rightarrow> int" where
  "round_half_even a d =
     (let q = a div d; r = a mod d
      in if 2 * r < d then q
         else if d < 2 * r then q + 1
         else if even q then q else q + 1)"

definition round_f32 :: "int \<Rightarrow> int" where
  "round_f32 m =
     (let a = \<bar>m\<bar>; n = bit_length a
      in if n \<le> 24 then m
         else sgn m * round_half_even a (2 ^ (n - 24)) * 2 ^ (n - 24))"

text \<open>
  \<^verbatim>\<open>float factor = 1.2f;\<close>
  The single precision number nearest to 1.2 is \<open>10066330 * 2^-23\<close>.
\<close>

definition factor :: int where
  "factor = 10066330"

text \<open>
  \<^verbatim>\<open>int val = static_cast<int>((data[i] - 128) * factor + 128);\<close>
  \<^verbatim>\<open>if (val < 0) val = 0;\<close>
  \<^verbatim>\<open>if (val > 255) val = 255;\<close>
  The argument \<open>d\<close> is the value of \<open>data[i]\<close> as an \<open>int\<close>; the conversion of
  \<open>d - 128\<close> to \<open>float\<close> is exact, and the cast to \<open>int\<close> drops the fraction.
\<close>

definition contrast_val :: "int \<Rightarrow> int" where
  "contrast_val d =
     (let prod = round_f32 ((d - 128) * factor);
          s = round_f32 (prod + 128 * 2 ^ 23);
          val = c_div s (2 ^ 23);
          val = (if val < 0 then 0 else val);
          val = (if 255 < val then 255 else val)
      in val)"

text \<open>
  What the three filters store in \<open>data[i]\<close>. The byte is promoted to \<open>int\<close>, and the
  result is converted back to \<open>unsigned char\<close>.
  \<^verbatim>\<open>data[i] = 255 - data[i];\<close>
  \<^verbatim>\<open>int val = data[i] + 50; data[i] = (val > 255) ? 255 : val;\<close>
  \<^verbatim>\<open>data[i] = static_cast<unsigned char>(val);\<close>
\<close>

definition invert_px :: "byte \<Rightarrow> byte" where
  "invert_px p = word_of_int (255 - uint p)"

definition brightness_px :: "byte \<Rightarrow> byte" where
  "brightness_px p = (let val = uint p + 50 in word_of_int (if 255 < val then 255 else val))"

definition contrast_px :: "byte \<Rightarrow> byte" where
  "contrast_px p = word_of_int (contrast_val (uint p))"

text \<open>
  The three filters run the same loop with their own body:
  \<^verbatim>\<open>for (int i = 0; i < width * height * channels; ++i) data[i] = ...;\<close>
  An unrecognised \<open>filterType\<close> reaches no loop and leaves the buffer as it is.
\<close>

function filter_loop :: "(byte \<Rightarrow> byte) \<Rightarrow> int \<Rightarrow> int \<Rightarrow> byte list \<Rightarrow> error + byte list" where
  "filter_loop f n i data =
     (if i < n then
        (if i < 0 \<or> int (length data) \<le> i then Inl OutOfBounds
         else filter_loop f n (i + 1) (data[nat i := f (data ! nat i)]))
      else Inr data)"
  by pat_completeness auto
termination
  by (relation "measure (\<lambda>(f, n, i, data). nat (n - i))") auto

definition apply_filter :: "byte list \<Rightarrow> int \<Rightarrow> int \<Rightarrow> int \<Rightarrow> string \<Rightarrow> error + byte list" where
  "apply_filter data width height channels filterType =
     (if filterType = ''invert'' then
        filter_loop invert_px (width * height * channels) 0 data
      else if filterType = ''brightness'' then
        filter_loop brightness_px (width * height * channels) 0 data
      else if filterType = ''contrast'' then
        filter_loop contrast_px (width * height * channels) 0 data
      else Inr data)"

text \<open>The byte transform that \<open>apply_filter\<close> selects for a filter name.\<close>

definition filter_px :: "string \<Rightarrow> byte \<Rightarrow> byte" where
  "filter_px filterType =
     (if filterType = ''invert'' then invert_px
      else if filterType = ''brightness'' then brightness_px
      else if filterType = ''contrast'' then contrast_px
      else (\<lambda>p. p))"

text \<open>
  The contrast transform as the specification words it, for comparison with
  \<open>contrast_val\<close>: \<open>clamp(round((pixel - 128) * 1.2 + 128), 0, 255)\<close> in exact arithmetic.
  \<open>near_spec d v\<close> says that \<open>v\<close> is a byte value and is the specified value for \<open>d\<close> or
  one less.
\<close>

definition contrast_spec :: "int \<Rightarrow> int" where
  "contrast_spec d = max 0 (min 255 (round (of_int (d - 128) * (12 / 10 :: rat) + 128)))"

definition near_spec :: "int \<Rightarrow> int \<Rightarrow> bool" where
  "near_spec d v \<longleftrightarrow> 0 \<le> v \<and> v \<le> 255 \<and> (let r = contrast_spec d in r - 1 \<le> v \<and> v \<le> r)"

definition contrast_checked :: "int \<Rightarrow> bool" where
  "contrast_checked d \<longleftrightarrow> near_spec d (contrast_val d)"

section \<open>One rank of \<open>main\<close> between scatter and gather\<close>

text \<open>
  \<open>localIn\<close> is the block the rank holds after \<open>MPI_Scatterv\<close>. The rank computes its row
  counts, resamples its block and filters the result; the value is the block it hands to
  \<open>MPI_Gatherv\<close>. The divisions by \<open>size\<close> and by \<open>height\<close> are checked here.
\<close>

definition worker ::
  "byte list \<Rightarrow> int \<Rightarrow> int \<Rightarrow> int \<Rightarrow> int \<Rightarrow> int \<Rightarrow> int \<Rightarrow> string \<Rightarrow> error + byte list" where
  "worker localIn width height channels newHeight sz rank filterType =
     (if sz = 0 \<or> height = 0 then Inl DivisionByZero
      else
        (let inH = localInHeight height sz rank;
             outH = localOutHeight newHeight height sz rank
         in case resize_rows localIn width inH outH channels of
              Inl e \<Rightarrow> Inl e
            | Inr localResized \<Rightarrow> apply_filter localResized width outH channels filterType))"


declare resize_rows_c.simps [simp del]

declare resize_rows_x.simps [simp del]

declare resize_rows_y.simps [simp del]

declare filter_loop.simps [simp del]

section \<open>The input row ranges tile the image\<close>

lemma c_div_nonneg: "0 \<le> a \<Longrightarrow> 0 < b \<Longrightarrow> c_div a b = a div b"
  by (cases "a = 0") (simp_all add: c_div_def)

lemma c_mod_nonneg: "0 \<le> a \<Longrightarrow> 0 < b \<Longrightarrow> c_mod a b = a mod b"
  by (simp add: c_mod_def c_div_nonneg minus_div_mult_eq_mod)

lemma rowsPerProc_eq: "0 \<le> height \<Longrightarrow> 0 < sz \<Longrightarrow> rowsPerProc height sz = height div sz"
  by (simp add: rowsPerProc_def c_div_nonneg)

lemma remainder_eq: "0 \<le> height \<Longrightarrow> 0 < sz \<Longrightarrow> remainder height sz = height mod sz"
  by (simp add: remainder_def c_mod_nonneg)

lemma localInHeight_nonneg:
  "0 \<le> height \<Longrightarrow> 0 < sz \<Longrightarrow> 0 \<le> localInHeight height sz rank"
  by (simp add: localInHeight_def rowsPerProc_eq pos_imp_zdiv_nonneg_iff)

lemma startRow_step:
  assumes "0 \<le> height" "0 < sz" "0 \<le> rank"
  shows "startRow height sz (rank + 1) = startRow height sz rank + localInHeight height sz rank"
  using assms
  by (simp add: startRow_def localInHeight_def rowsPerProc_eq remainder_eq algebra_simps min_def)

lemma startRow_first: "0 \<le> height \<Longrightarrow> 0 < sz \<Longrightarrow> startRow height sz 0 = 0"
  by (simp add: startRow_def remainder_eq)

lemma startRow_last: "0 \<le> height \<Longrightarrow> 0 < sz \<Longrightarrow> startRow height sz sz = height"
proof -
  assume h: "0 \<le> height" "0 < sz"
  then have "height mod sz < sz" by simp
  then have "min sz (height mod sz) = height mod sz" by simp
  with h show ?thesis by (simp add: startRow_def rowsPerProc_eq remainder_eq)
qed

lemma startRow_mono:
  assumes "0 \<le> height" "0 < sz" "i \<le> j"
  shows "startRow height sz i \<le> startRow height sz j"
proof -
  have "0 \<le> height div sz" using assms by (simp add: pos_imp_zdiv_nonneg_iff)
  then have "i * (height div sz) \<le> j * (height div sz)"
    using assms(3) by (rule mult_right_mono[rotated])
  moreover have "min i (height mod sz) \<le> min j (height mod sz)"
    using assms(3) by simp
  ultimately show ?thesis using assms by (simp add: startRow_def rowsPerProc_eq remainder_eq)
qed

lemma int_interval_Suc: "{0..<int (Suc n)} = insert (int n) {0..<int n}"
  by auto

lemma rows_union_prefix:
  assumes "0 \<le> height" "0 < sz"
  shows "(\<Union>rank\<in>{0..<int n}.
            {startRow height sz rank ..< startRow height sz rank + localInHeight height sz rank})
         = {0 ..< startRow height sz (int n)}"
proof (induction n)
  case 0
  show ?case using assms by (simp add: startRow_first)
next
  case (Suc n)
  have step: "startRow height sz (int n) + localInHeight height sz (int n) = startRow height sz (int n + 1)"
    using assms by (simp add: startRow_step)
  have lo: "0 \<le> startRow height sz (int n)"
    using startRow_mono[OF assms, of 0 "int n"] assms by (simp add: startRow_first)
  have hi: "startRow height sz (int n) \<le> startRow height sz (int n + 1)"
    using startRow_mono[OF assms, of "int n" "int n + 1"] by simp
  have "{0 ..< startRow height sz (int n)} \<union> {startRow height sz (int n) ..< startRow height sz (int n + 1)}
        = {0 ..< startRow height sz (int n + 1)}"
    using lo hi by auto
  then show ?case
    unfolding int_interval_Suc using Suc.IH step by (simp add: Un_commute add.commute)
qed

lemma rows_sum_nat:
  assumes "0 \<le> height" "0 < sz"
  shows "(\<Sum>j<n. localInHeight height sz (int j)) = startRow height sz (int n)"
proof (induction n)
  case 0
  show ?case using assms by (simp add: startRow_first)
next
  case (Suc n)
  then show ?case using startRow_step[OF assms, of "int n"] by (simp add: add.commute)
qed

lemma planner_values_bounded:
  assumes "1 \<le> height" "1 \<le> sz" "0 \<le> rank" "rank < sz"
  shows "0 \<le> rowsPerProc height sz \<and> rowsPerProc height sz \<le> height
       \<and> 0 \<le> remainder height sz \<and> remainder height sz < sz
       \<and> 0 \<le> localInHeight height sz rank \<and> localInHeight height sz rank \<le> height
       \<and> 0 \<le> rank * rowsPerProc height sz \<and> rank * rowsPerProc height sz \<le> height
       \<and> 0 \<le> startRow height sz rank
       \<and> startRow height sz rank + localInHeight height sz rank \<le> height"
proof -
  have h: "0 \<le> height" "0 < sz" using assms by simp_all
  have b0: "0 \<le> height div sz" using h by (simp add: pos_imp_zdiv_nonneg_iff)
  have b1: "height div sz \<le> height" using h zdiv_mono2[of height 1 sz] by simp
  have r: "0 \<le> height mod sz" "height mod sz < sz" using h by simp_all
  have s0: "0 \<le> startRow height sz rank"
    using startRow_mono[OF h, of 0 rank] assms by (simp add: startRow_first[OF h])
  have "startRow height sz (rank + 1) \<le> startRow height sz sz"
    using assms by (intro startRow_mono[OF h]) simp
  then have s1: "startRow height sz rank + localInHeight height sz rank \<le> height"
    using startRow_step[OF h assms(3)] startRow_last[OF h] by simp
  have l0: "0 \<le> localInHeight height sz rank" using h by (rule localInHeight_nonneg)
  have p0: "0 \<le> rank * (height div sz)" using assms b0 by simp
  have m0: "0 \<le> min rank (height mod sz)" using assms r by simp
  have "rank * (height div sz) + min rank (height mod sz) \<le> height"
    using s1 l0 h by (simp add: startRow_def rowsPerProc_eq remainder_eq)
  then have p1: "rank * (height div sz) \<le> height" using m0 by linarith
  have l1: "localInHeight height sz rank \<le> height" using s0 s1 by simp
  show ?thesis
    using b0 b1 r s0 s1 l0 l1 p0 p1 h by (simp add: rowsPerProc_eq remainder_eq)
qed

text \<open>
  Claim C1. For every height of at least one row and at least one worker, worker \<open>rank\<close>
  receives \<open>height div sz + 1\<close> rows if \<open>rank < height mod sz\<close> and \<open>height div sz\<close> rows
  otherwise, starting at row \<open>rank * (height div sz) + min rank (height mod sz)\<close>. The
  ranges of the workers cover exactly the rows \<open>0 \<le> r < height\<close>, the ranges of two
  different workers have no row in common, each range starts where the previous one ends,
  and the row counts add up to \<open>height\<close>.
\<close>

theorem planner_input_ranges_tile:
  assumes "1 \<le> height" "1 \<le> sz"
  shows "(\<forall>rank. 0 \<le> rank \<and> rank < sz \<longrightarrow>
            localInHeight height sz rank
              = (if rank < height mod sz then height div sz + 1 else height div sz)
          \<and> startRow height sz rank = rank * (height div sz) + min rank (height mod sz))
       \<and> (\<Union>rank\<in>{0..<sz}. {startRow height sz rank
                                ..< startRow height sz rank + localInHeight height sz rank})
           = {0..<height}
       \<and> (\<forall>i j. 0 \<le> i \<and> i < j \<and> j < sz \<longrightarrow>
             {startRow height sz i ..< startRow height sz i + localInHeight height sz i}
             \<inter> {startRow height sz j ..< startRow height sz j + localInHeight height sz j} = {})
       \<and> startRow height sz 0 = 0
       \<and> (\<forall>rank. 0 \<le> rank \<and> rank < sz \<longrightarrow>
             startRow height sz (rank + 1)
               = startRow height sz rank + localInHeight height sz rank)
       \<and> startRow height sz sz = height
       \<and> (\<Sum>rank<nat sz. localInHeight height sz (int rank)) = height"
proof -
  have h: "0 \<le> height" "0 < sz" using assms by simp_all
  have formula: "\<forall>rank. 0 \<le> rank \<and> rank < sz \<longrightarrow>
            localInHeight height sz rank
              = (if rank < height mod sz then height div sz + 1 else height div sz)
          \<and> startRow height sz rank = rank * (height div sz) + min rank (height mod sz)"
    using h by (simp add: localInHeight_def startRow_def rowsPerProc_eq remainder_eq)
  have cover: "(\<Union>rank\<in>{0..<sz}. {startRow height sz rank
                                ..< startRow height sz rank + localInHeight height sz rank})
           = {0..<height}"
    using rows_union_prefix[OF h, of "nat sz"] h by (simp add: startRow_last)
  have disj: "\<forall>i j. 0 \<le> i \<and> i < j \<and> j < sz \<longrightarrow>
             {startRow height sz i ..< startRow height sz i + localInHeight height sz i}
             \<inter> {startRow height sz j ..< startRow height sz j + localInHeight height sz j} = {}"
  proof (intro allI impI)
    fix i j assume ij: "0 \<le> i \<and> i < j \<and> j < sz"
    then have "startRow height sz (i + 1) \<le> startRow height sz j"
      using startRow_mono[OF h, of "i + 1" j] by simp
    then have "startRow height sz i + localInHeight height sz i \<le> startRow height sz j"
      using ij startRow_step[OF h, of i] by simp
    then show "{startRow height sz i ..< startRow height sz i + localInHeight height sz i}
             \<inter> {startRow height sz j ..< startRow height sz j + localInHeight height sz j} = {}"
      by auto
  qed
  have chain: "\<forall>rank. 0 \<le> rank \<and> rank < sz \<longrightarrow>
             startRow height sz (rank + 1)
               = startRow height sz rank + localInHeight height sz rank"
    using startRow_step[OF h] by simp
  have total: "(\<Sum>rank<nat sz. localInHeight height sz (int rank)) = height"
    using rows_sum_nat[OF h, of "nat sz"] h by (simp add: startRow_last)
  show ?thesis
    using formula cover disj chain total startRow_first[OF h] startRow_last[OF h]
    by blast
qed

theorem planner_input_ranges_tile_witness:
  "(1::int) \<le> 10 \<and> (1::int) \<le> 4
   \<and> (\<Union>rank\<in>{0..<4}. {startRow 10 4 rank ..< startRow 10 4 rank + localInHeight 10 4 rank})
       = {0..<10}
   \<and> startRow 10 4 4 = 10
   \<and> (\<Sum>rank<nat 4. localInHeight 10 4 (int rank)) = 10"
proof -
  have h: "(1::int) \<le> 10" "(1::int) \<le> 4" by simp_all
  note t = planner_input_ranges_tile[OF h]
  have c: "(\<Union>rank\<in>{0..<4}. {startRow 10 4 rank ..< startRow 10 4 rank + localInHeight 10 4 rank})
       = {0..<10}"
    using t by (rule conjunct2[THEN conjunct1])
  have e: "startRow 10 4 4 = 10" using t by blast
  have s: "(\<Sum>rank<nat 4. localInHeight 10 4 (int rank)) = 10" using t by blast
  show ?thesis by (intro conjI) (fact h c e s)+
qed

section \<open>Machine arithmetic that stays in range is exact\<close>

lemma wrap32_exact: "- 2147483648 \<le> v \<Longrightarrow> v \<le> INT_MAX \<Longrightarrow> wrap32 v = v"
  by (simp add: wrap32_def INT_MAX_def)

lemma mul32_exact: "0 \<le> a * b \<Longrightarrow> a * b \<le> INT_MAX \<Longrightarrow> mul32 a b = a * b"
  by (simp add: mul32_def wrap32_exact)

lemma add32_exact: "0 \<le> a + b \<Longrightarrow> a + b \<le> INT_MAX \<Longrightarrow> add32 a b = a + b"
  by (simp add: add32_def wrap32_exact)

lemma mul32_zero_right: "mul32 a 0 = 0"
  by (simp add: mul32_def wrap32_def)

lemma mul32_mul32_exact:
  assumes "0 \<le> a" "0 \<le> b" "0 \<le> c" "a * b * c \<le> INT_MAX"
  shows "mul32 (mul32 a b) c = a * b * c"
proof (cases "c = 0")
  case True
  then show ?thesis by (simp add: mul32_zero_right)
next
  case False
  then have c1: "1 \<le> c" using assms by simp
  have ab: "0 \<le> a * b" using assms by simp
  have "a * b * 1 \<le> a * b * c" using ab c1 by (intro mult_left_mono) simp_all
  then have "a * b \<le> INT_MAX" using assms(4) by simp
  then have "mul32 a b = a * b" using ab by (simp add: mul32_exact)
  moreover have "0 \<le> a * b * c" using ab assms by simp
  ultimately show ?thesis using assms(4) by (simp add: mul32_exact)
qed

lemma pixel_offset_exact:
  assumes "0 \<le> row" "0 \<le> x" "x < width" "0 \<le> c" "c < channels"
    and "(row * width + x) * channels + c \<le> INT_MAX"
  shows "pixel_offset row width x channels c = (row * width + x) * channels + c"
proof -
  have w: "0 \<le> width" and ch: "1 \<le> channels" using assms by linarith+
  have rw: "0 \<le> row * width" using assms w by simp
  have s: "0 \<le> row * width + x" using rw assms by simp
  have "(row * width + x) * 1 \<le> (row * width + x) * channels"
    using s ch by (intro mult_left_mono) simp_all
  then have s_le: "row * width + x \<le> (row * width + x) * channels" by simp
  have p: "0 \<le> (row * width + x) * channels" using s ch by simp
  have p_le: "(row * width + x) * channels \<le> INT_MAX" using assms by linarith
  have s_max: "row * width + x \<le> INT_MAX" using s_le p_le by linarith
  have rw_max: "row * width \<le> INT_MAX" using s_max assms by linarith
  have 1: "mul32 row width = row * width" using rw rw_max by (rule mul32_exact)
  have 2: "add32 (row * width) x = row * width + x" using s s_max by (rule add32_exact)
  have 3: "mul32 (row * width + x) channels = (row * width + x) * channels"
    using p p_le by (rule mul32_exact)
  have 4: "add32 ((row * width + x) * channels) c = (row * width + x) * channels + c"
    using p assms by (intro add32_exact) simp_all
  show ?thesis by (simp add: pixel_offset_def 1 2 3 4)
qed

section \<open>Output row counts and gather offsets\<close>














section \<open>The filters are bytewise maps\<close>

lemma uint_invert_px: "uint (invert_px p) = 255 - uint p"
proof -
  have r: "0 \<le> uint p" "uint p \<le> 255"
    using uint_lt2p[of p] by simp_all
  have "uint (invert_px p) = (255 - uint p) mod 2 ^ LENGTH(8)"
    unfolding invert_px_def by (rule uint_word_of_int)
  then show ?thesis using r by simp
qed

lemma invert_px_twice: "invert_px (invert_px p) = p"
proof -
  have "uint (invert_px (invert_px p)) = uint p"
    by (simp add: uint_invert_px)
  then show ?thesis by (simp only: word_uint_eq_iff)
qed

lemma filter_loop_spec:
  assumes "0 \<le> i" "n \<le> int (length data)"
  shows "\<exists>out. filter_loop f n i data = Inr out \<and> length out = length data
           \<and> (\<forall>j<length data. out ! j =
                 (if i \<le> int j \<and> int j < n then f (data ! j) else data ! j))"
  using assms
proof (induction f n i data rule: filter_loop.induct)
  case (1 f n i data)
  show ?case
  proof (cases "i < n")
    case False
    then show ?thesis by (subst filter_loop.simps) auto
  next
    case True
    define data1 where "data1 = data[nat i := f (data ! nat i)]"
    have ok: "\<not> (i < 0 \<or> int (length data) \<le> i)" using True "1.prems" by simp
    have l1: "length data1 = length data" by (simp add: data1_def)
    have p: "0 \<le> i + 1" "n \<le> int (length data1)" using "1.prems" l1 by simp_all
    note IH = "1.IH"[OF True ok, folded data1_def, OF p]
    from IH obtain out where
      r: "filter_loop f n (i + 1) data1 = Inr out"
      and l: "length out = length data1"
      and v: "\<forall>j<length data1. out ! j =
                 (if i + 1 \<le> int j \<and> int j < n then f (data1 ! j) else data1 ! j)"
      by blast
    have unfold: "filter_loop f n i data = Inr out"
      using True ok r by (subst filter_loop.simps) (simp add: data1_def)
    have "\<forall>j<length data. out ! j =
                 (if i \<le> int j \<and> int j < n then f (data ! j) else data ! j)"
    proof (intro allI impI)
      fix j assume j: "j < length data"
      show "out ! j = (if i \<le> int j \<and> int j < n then f (data ! j) else data ! j)"
      proof (cases "j = nat i")
        case True
        then have "data1 ! j = f (data ! j)" using j by (simp add: data1_def)
        then show ?thesis using v j l1 True \<open>i < n\<close> "1.prems" by simp
      next
        case False
        then have "data1 ! j = data ! j" by (simp add: data1_def)
        moreover have "int j \<noteq> i" using False by auto
        ultimately show ?thesis using v j l1 by auto
      qed
    qed
    then show ?thesis using unfold l l1 by simp
  qed
qed

lemma filter_loop_whole:
  assumes "int (length data) = n"
  shows "filter_loop f n 0 data = Inr (map f data)"
proof -
  have c: "(0::int) \<le> 0" "n \<le> int (length data)" using assms by simp_all
  from filter_loop_spec[OF c, of f] obtain out where
    r: "filter_loop f n 0 data = Inr out" and l: "length out = length data"
    and v: "\<forall>j<length data. out ! j =
                 (if 0 \<le> int j \<and> int j < n then f (data ! j) else data ! j)"
    by blast
  have "out = map f data"
  proof (rule nth_equalityI)
    show "length out = length (map f data)" using l by simp
  next
    fix j assume "j < length out"
    then have j: "j < length data" using l by simp
    then have "int j < n" using assms by simp
    then show "out ! j = map f data ! j" using v j by simp
  qed
  then show ?thesis using r by simp
qed

lemma apply_filter_whole:
  assumes "int (length data) = width * height * channels"
  shows "apply_filter data width height channels filterType = Inr (map (filter_px filterType) data)"
  using filter_loop_whole[OF assms]
  by (simp add: apply_filter_def filter_px_def)

text \<open>
  Claim C6. For every byte block (of \<open>width * height * channels\<close> bytes), the invert filter
  maps every byte \<open>p\<close>, whatever its channel, to \<open>255 - p\<close>, and applying the invert
  filter to the filtered block gives the original block back.
\<close>

theorem invert_twice:
  assumes "int (length block) = width * height * channels"
  shows "(\<exists>b. apply_filter block width height channels ''invert'' = Inr b
            \<and> apply_filter b width height channels ''invert'' = Inr block)
       \<and> apply_filter block width height channels ''invert'' = Inr (map invert_px block)
       \<and> (\<forall>p. uint (invert_px p) = 255 - uint p)"
proof -
  have a: "apply_filter block width height channels ''invert'' = Inr (map invert_px block)"
    using apply_filter_whole[OF assms, of "''invert''"] by (simp add: filter_px_def)
  have l: "int (length (map invert_px block)) = width * height * channels"
    using assms by simp
  have "apply_filter (map invert_px block) width height channels ''invert''
        = Inr (map invert_px (map invert_px block))"
    using apply_filter_whole[OF l, of "''invert''"] by (simp add: filter_px_def)
  then have b: "apply_filter (map invert_px block) width height channels ''invert'' = Inr block"
    by (simp add: invert_px_twice comp_def)
  show ?thesis using a b uint_invert_px by blast
qed

theorem invert_twice_witness:
  "int (length [0, 7, 200, 255 :: byte]) = 2 * 2 * 1
   \<and> apply_filter [0, 7, 200, 255] 2 2 1 ''invert'' = Inr [255, 248, 55, 0]
   \<and> apply_filter [255, 248, 55, 0] 2 2 1 ''invert'' = Inr [0, 7, 200, 255]"
proof -
  have h: "int (length [0, 7, 200, 255 :: byte]) = 2 * 2 * 1" by simp
  note t = invert_twice[OF h]
  have a: "apply_filter [0, 7, 200, 255] 2 2 1 ''invert'' = Inr (map invert_px [0, 7, 200, 255])"
    using t by blast
  have m: "map invert_px [0, 7, 200, 255] = [255, 248, 55, 0]"
    by (simp add: invert_px_def)
  from t obtain b where
    "apply_filter [0, 7, 200, 255] 2 2 1 ''invert'' = Inr b"
    "apply_filter b 2 2 1 ''invert'' = Inr [0, 7, 200, 255]"
    by blast
  then show ?thesis using h a m by simp
qed

text \<open>
  Claim C8. For every filter name other than \<open>invert\<close>, \<open>brightness\<close> and \<open>contrast\<close>,
  \<open>apply_filter\<close> returns the block unchanged, and it returns it as a result, not as an
  error.
\<close>

theorem unknown_filter_identity:
  assumes "filterType \<noteq> ''invert''" "filterType \<noteq> ''brightness''" "filterType \<noteq> ''contrast''"
  shows "apply_filter data width height channels filterType = Inr data"
  using assms by (simp add: apply_filter_def)

theorem unknown_filter_identity_witness:
  "''blur'' \<noteq> ''invert'' \<and> ''blur'' \<noteq> ''brightness'' \<and> ''blur'' \<noteq> ''contrast''
   \<and> apply_filter [1, 2, 3] 3 1 1 ''blur'' = Inr [1, 2, 3]
   \<and> apply_filter [1, 2, 3] 7 5 4 ''Invert'' = Inr [1, 2, 3]"
proof -
  have h: "''blur'' \<noteq> ''invert''" "''blur'' \<noteq> ''brightness''" "''blur'' \<noteq> ''contrast''"
    by simp_all
  have g: "''Invert'' \<noteq> ''invert''" "''Invert'' \<noteq> ''brightness''" "''Invert'' \<noteq> ''contrast''"
    by simp_all
  show ?thesis
    using h unknown_filter_identity[OF h, of "[1, 2, 3]" 3 1 1]
      unknown_filter_identity[OF g, of "[1, 2, 3]" 7 5 4]
    by simp
qed

text \<open>
  Claim C9. For every filter name and any two byte blocks \<open>A\<close> and \<open>B\<close>, filtering the
  concatenation \<open>A @ B\<close> gives the concatenation of the filtered \<open>A\<close> and the filtered
  \<open>B\<close>: the filter is the same bytewise map whatever the position, width and height.
\<close>

theorem filter_distributes_over_append:
  assumes "int (length A) = wA * hA * cA" "int (length B) = wB * hB * cB"
    and "int (length (A @ B)) = width * height * channels"
  shows "\<exists>fA fB. apply_filter A wA hA cA filterType = Inr fA
           \<and> apply_filter B wB hB cB filterType = Inr fB
           \<and> apply_filter (A @ B) width height channels filterType = Inr (fA @ fB)
           \<and> fA = map (filter_px filterType) A \<and> fB = map (filter_px filterType) B"
  using apply_filter_whole[OF assms(1), of filterType]
    apply_filter_whole[OF assms(2), of filterType]
    apply_filter_whole[OF assms(3), of filterType]
  by simp

theorem filter_distributes_over_append_witness:
  "int (length [1, 2 :: byte]) = 2 * 1 * 1 \<and> int (length [3, 4, 5, 6 :: byte]) = 2 * 2 * 1
   \<and> int (length ([1, 2] @ [3, 4, 5, 6 :: byte])) = 2 * 3 * 1
   \<and> apply_filter [1, 2] 2 1 1 ''brightness'' = Inr [51, 52]
   \<and> apply_filter [3, 4, 5, 6] 2 2 1 ''brightness'' = Inr [53, 54, 55, 56]
   \<and> apply_filter ([1, 2] @ [3, 4, 5, 6]) 2 3 1 ''brightness'' = Inr ([51, 52] @ [53, 54, 55, 56])"
proof -
  have h: "int (length [1, 2 :: byte]) = 2 * 1 * 1" "int (length [3, 4, 5, 6 :: byte]) = 2 * 2 * 1"
    "int (length ([1, 2] @ [3, 4, 5, 6 :: byte])) = 2 * 3 * 1"
    by simp_all
  have m: "map (filter_px ''brightness'') [1, 2] = [51, 52]"
    "map (filter_px ''brightness'') [3, 4, 5, 6] = [53, 54, 55, 56]"
    by (simp_all add: filter_px_def brightness_px_def)
  from filter_distributes_over_append[OF h, of "''brightness''"] m
  show ?thesis using h by auto
qed

section \<open>The contrast filter\<close>

lemma contrast_checked_all: "list_all contrast_checked [0..255]"
  by code_simp

lemma contrast_sorted: "sorted (map contrast_val [0..255])"
  by code_simp

lemma contrast_val_near_spec:
  assumes "0 \<le> d" "d \<le> 255"
  shows "0 \<le> contrast_val d" "contrast_val d \<le> 255"
    "contrast_spec d - 1 \<le> contrast_val d" "contrast_val d \<le> contrast_spec d"
proof -
  have "d \<in> set [0..255]" using assms by simp
  then have "contrast_checked d" using contrast_checked_all by (simp only: list_all_iff)
  then show "0 \<le> contrast_val d" "contrast_val d \<le> 255"
    "contrast_spec d - 1 \<le> contrast_val d" "contrast_val d \<le> contrast_spec d"
    by (simp_all add: contrast_checked_def near_spec_def Let_def)
qed

lemma contrast_val_mono:
  assumes "0 \<le> d" "d \<le> e" "e \<le> 255"
  shows "contrast_val d \<le> contrast_val e"
proof -
  have len: "length [0..255::int] = 256" by simp
  have i: "nat d \<le> nat e" "nat e < length (map contrast_val [0..255])"
    using assms by simp_all
  have "map contrast_val [0..255] ! nat d \<le> map contrast_val [0..255] ! nat e"
    using contrast_sorted i by (rule sorted_nth_mono)
  then show ?thesis using assms by simp
qed

lemma uint_contrast_px: "uint (contrast_px p) = contrast_val (uint p)"
proof -
  have r: "0 \<le> uint p" "uint p \<le> 255"
    using uint_lt2p[of p] by simp_all
  note b = contrast_val_near_spec(1,2)[OF r]
  have "uint (word_of_int (contrast_val (uint p)) :: byte) = contrast_val (uint p) mod 256"
    by (simp add: uint_word_of_int)
  then show ?thesis using b by (simp add: contrast_px_def)
qed

text \<open>
  Claim C4, as amended. For every input byte \<open>p\<close>, the contrast filter replaces \<open>p\<close> with
  \<open>clamp(trunc((p - 128) * 1.2f + 128), 0, 255)\<close>, computed in single precision and with
  the fraction dropped; this value is \<open>clamp(round((p - 128) * 1.2 + 128), 0, 255)\<close> or one
  less than it. The result is always between 0 and 255, and the transform is monotonic.
\<close>

theorem contrast_truncates:
  assumes "int (length data) = width * height * channels"
  shows "apply_filter data width height channels ''contrast'' = Inr (map contrast_px data)
       \<and> (\<forall>p. uint (contrast_px p) = contrast_val (uint p)
              \<and> 0 \<le> contrast_val (uint p) \<and> contrast_val (uint p) \<le> 255
              \<and> contrast_spec (uint p) - 1 \<le> uint (contrast_px p)
              \<and> uint (contrast_px p) \<le> contrast_spec (uint p))
       \<and> (\<forall>p q. p \<le> q \<longrightarrow> contrast_px p \<le> contrast_px q)"
proof -
  have a: "apply_filter data width height channels ''contrast'' = Inr (map contrast_px data)"
    using apply_filter_whole[OF assms, of "''contrast''"] by (simp add: filter_px_def)
  have b: "\<forall>p. uint (contrast_px p) = contrast_val (uint p)
              \<and> 0 \<le> contrast_val (uint p) \<and> contrast_val (uint p) \<le> 255
              \<and> contrast_spec (uint p) - 1 \<le> uint (contrast_px p)
              \<and> uint (contrast_px p) \<le> contrast_spec (uint p)"
  proof
    fix p :: byte
    have r: "0 \<le> uint p" "uint p \<le> 255" using uint_lt2p[of p] by simp_all
    show "uint (contrast_px p) = contrast_val (uint p)
              \<and> 0 \<le> contrast_val (uint p) \<and> contrast_val (uint p) \<le> 255
              \<and> contrast_spec (uint p) - 1 \<le> uint (contrast_px p)
              \<and> uint (contrast_px p) \<le> contrast_spec (uint p)"
      using contrast_val_near_spec[OF r] by (simp add: uint_contrast_px)
  qed
  have c: "\<forall>p q. p \<le> q \<longrightarrow> contrast_px p \<le> contrast_px q"
  proof (intro allI impI)
    fix p q :: byte assume "p \<le> q"
    then have le: "uint p \<le> uint q" by (simp add: word_le_def)
    have r: "0 \<le> uint p" "uint q \<le> 255" using uint_lt2p[of q] by simp_all
    have "contrast_val (uint p) \<le> contrast_val (uint q)"
      using r(1) le r(2) by (rule contrast_val_mono)
    then show "contrast_px p \<le> contrast_px q"
      by (simp add: word_le_def uint_contrast_px)
  qed
  show ?thesis using a b c by blast
qed

theorem contrast_truncates_witness:
  "int (length [23, 131, 255 :: byte]) = 3 * 1 * 1
   \<and> apply_filter [23, 131, 255] 3 1 1 ''contrast'' = Inr [1, 131, 255]"
proof -
  have h: "int (length [23, 131, 255 :: byte]) = 3 * 1 * 1" by simp
  have v: "contrast_val 23 = 1" "contrast_val 131 = 131" "contrast_val 255 = 255"
    by code_simp+
  have "apply_filter [23, 131, 255] 3 1 1 ''contrast'' = Inr (map contrast_px [23, 131, 255])"
    using contrast_truncates[OF h] by blast
  then show ?thesis using h v by (simp add: contrast_px_def)
qed

text \<open>
  Claim C4 as stated fails at the byte 131: \<open>(131 - 128) * 1.2 + 128 = 131.6\<close> rounds to
  132, and the filter stores 131.
\<close>

theorem contrast_round_counterexample:
  "contrast_px 131 = 131 \<and> contrast_spec (uint (131 :: byte)) = 132
   \<and> apply_filter [131] 1 1 1 ''contrast'' = Inr [131]"
proof -
  have v: "contrast_val 131 = 131" by code_simp
  have s: "contrast_spec 131 = 132" by code_simp
  have p: "contrast_px 131 = 131" using v by (simp add: contrast_px_def)
  have "apply_filter [131] 1 1 1 ''contrast'' = Inr (map (filter_px ''contrast'') [131])"
    by (rule apply_filter_whole) simp
  then show ?thesis using p s by (simp add: filter_px_def)
qed

section \<open>The resampler copies the nearest source row\<close>

lemma pixel_index:
  fixes y x c width channels h :: int
  assumes "0 \<le> y" "0 \<le> x" "x < width" "0 \<le> c" "c < channels"
  shows "((y * width + x) * channels + c) div (width * channels) = y"
    and "((y * width + x) * channels + c) mod (width * channels) = x * channels + c"
    and "0 \<le> (y * width + x) * channels + c"
    and "y < h \<Longrightarrow> (y * width + x) * channels + c < width * h * channels"
proof -
  have ch: "0 \<le> channels" using assms by linarith
  have "x * channels \<le> (width - 1) * channels"
    using assms ch by (intro mult_right_mono) simp_all
  then have hi: "x * channels + c < width * channels"
    using assms by (simp add: algebra_simps)
  have lo: "0 \<le> x * channels + c" using assms by simp
  have eq: "(y * width + x) * channels + c = (width * channels) * y + (x * channels + c)"
    by (simp add: algebra_simps)
  show "((y * width + x) * channels + c) div (width * channels) = y"
    using eq lo hi by (rule int_div_pos_eq)
  show "((y * width + x) * channels + c) mod (width * channels) = x * channels + c"
    using eq lo hi by (rule int_mod_pos_eq)
  have W: "0 \<le> width * channels" using assms by simp
  then have "0 \<le> (width * channels) * y" using assms by simp
  then show "0 \<le> (y * width + x) * channels + c" using eq lo by simp
  show "(y * width + x) * channels + c < width * h * channels" if "y < h"
  proof -
    have "(y + 1) * (width * channels) \<le> h * (width * channels)"
      using that W by (intro mult_right_mono) simp_all
    then show ?thesis using hi by (simp add: algebra_simps)
  qed
qed

lemma resize_rows_c_spec:
  assumes "0 \<le> c" "0 \<le> bd" "bd + channels \<le> int (length out)"
    and "0 \<le> bs" "bs + channels \<le> int (length data)"
    and "\<forall>c'. 0 \<le> c' \<and> c' < channels \<longrightarrow> pixel_offset y width x channels c' = bd + c'"
    and "\<forall>c'. 0 \<le> c' \<and> c' < channels \<longrightarrow> pixel_offset srcY width x channels c' = bs + c'"
  shows "\<exists>out'. resize_rows_c data width channels srcY y x c out = Inr out'
           \<and> length out' = length out
           \<and> (\<forall>i<length out. out' ! i =
                 (if bd + c \<le> int i \<and> int i < bd + channels
                  then data ! nat (bs + (int i - bd)) else out ! i))"
  using assms
proof (induction data width channels srcY y x c out rule: resize_rows_c.induct)
  case (1 data width channels srcY y x c out)
  show ?case
  proof (cases "c < channels")
    case False
    then show ?thesis by (subst resize_rows_c.simps) auto
  next
    case True
    define dst where "dst = pixel_offset y width x channels c"
    define src where "src = pixel_offset srcY width x channels c"
    define out1 where "out1 = out[nat dst := data ! nat src]"
    have dst: "dst = bd + c" and src: "src = bs + c"
      using "1.prems" True by (simp_all add: dst_def src_def)
    have ok: "\<not> (src < 0 \<or> int (length data) \<le> src)" "\<not> (dst < 0 \<or> int (length out) \<le> dst)"
      using True "1.prems" dst src by auto
    have unfold: "resize_rows_c data width channels srcY y x c out
           = resize_rows_c data width channels srcY y x (c + 1) out1"
      using True ok
      by (subst resize_rows_c.simps) (simp add: Let_def dst_def src_def out1_def)
    have l1: "length out1 = length out" by (simp add: out1_def)
    have p: "0 \<le> c + 1" "bd + channels \<le> int (length out1)"
      using "1.prems" l1 by simp_all
    note IH = "1.IH"[OF True dst_def src_def ok, folded out1_def,
                     OF p(1) "1.prems"(2) p(2) "1.prems"(4-7)]
    from IH
    obtain out' where
      r: "resize_rows_c data width channels srcY y x (c + 1) out1 = Inr out'"
      and l: "length out' = length out1"
      and v: "\<forall>i<length out1. out' ! i =
                 (if bd + (c + 1) \<le> int i \<and> int i < bd + channels
                  then data ! nat (bs + (int i - bd)) else out1 ! i)"
      by blast
    have "\<forall>i<length out. out' ! i =
                 (if bd + c \<le> int i \<and> int i < bd + channels
                  then data ! nat (bs + (int i - bd)) else out ! i)"
    proof (intro allI impI)
      fix i assume i: "i < length out"
      show "out' ! i = (if bd + c \<le> int i \<and> int i < bd + channels
                  then data ! nat (bs + (int i - bd)) else out ! i)"
      proof (cases "int i = bd + c")
        case eq: True
        then have "i = nat dst" using dst by simp
        then have "out1 ! i = data ! nat src" using i by (simp add: out1_def)
        moreover have "bs + (int i - bd) = src" using eq src by simp
        ultimately show ?thesis using v i l1 eq True by simp
      next
        case ne: False
        then have "i \<noteq> nat dst" using dst "1.prems" by auto
        then have "out1 ! i = out ! i" by (simp add: out1_def)
        then show ?thesis using v i l1 ne by auto
      qed
    qed
    then show ?thesis using unfold r l l1 by simp
  qed
qed

lemma resize_rows_x_spec:
  assumes "0 \<le> x" "x \<le> width" "0 \<le> channels"
    and "0 \<le> rb" "rb + width * channels \<le> int (length out)"
    and "0 \<le> sb" "sb + width * channels \<le> int (length data)"
    and "\<forall>x' c'. 0 \<le> x' \<and> x' < width \<and> 0 \<le> c' \<and> c' < channels \<longrightarrow>
           pixel_offset y width x' channels c' = rb + x' * channels + c'"
    and "\<forall>x' c'. 0 \<le> x' \<and> x' < width \<and> 0 \<le> c' \<and> c' < channels \<longrightarrow>
           pixel_offset srcY width x' channels c' = sb + x' * channels + c'"
  shows "\<exists>out'. resize_rows_x data width channels srcY y x out = Inr out'
           \<and> length out' = length out
           \<and> (\<forall>i<length out. out' ! i =
                 (if rb + x * channels \<le> int i \<and> int i < rb + width * channels
                  then data ! nat (sb + (int i - rb)) else out ! i))"
  using assms
proof (induction data width channels srcY y x out rule: resize_rows_x.induct)
  case (1 data width channels srcY y x out)
  show ?case
  proof (cases "x < width")
    case False
    with "1.prems" have "x = width" by simp
    then show ?thesis using False by (subst resize_rows_x.simps) auto
  next
    case True
    define bd where "bd = rb + x * channels"
    define bs where "bs = sb + x * channels"
    have xc: "0 \<le> x * channels" using "1.prems" by simp
    have "(x + 1) * channels \<le> width * channels"
      using True "1.prems"(3) by (intro mult_right_mono) simp_all
    then have step: "x * channels + channels \<le> width * channels"
      by (simp add: algebra_simps)
    have c: "(0::int) \<le> 0" "0 \<le> bd" "bd + channels \<le> int (length out)"
        "0 \<le> bs" "bs + channels \<le> int (length data)"
        "\<forall>c'. 0 \<le> c' \<and> c' < channels \<longrightarrow> pixel_offset y width x channels c' = bd + c'"
        "\<forall>c'. 0 \<le> c' \<and> c' < channels \<longrightarrow> pixel_offset srcY width x channels c' = bs + c'"
      using "1.prems" xc step True by (simp_all add: bd_def bs_def)
    from resize_rows_c_spec[OF c]
    obtain out1 where
      r1: "resize_rows_c data width channels srcY y x 0 out = Inr out1"
      and l1: "length out1 = length out"
      and v1: "\<forall>i<length out. out1 ! i =
                 (if bd + 0 \<le> int i \<and> int i < bd + channels
                  then data ! nat (bs + (int i - bd)) else out ! i)"
      by blast
    have p: "0 \<le> x + 1" "x + 1 \<le> width" "rb + width * channels \<le> int (length out1)"
      using True "1.prems" l1 by simp_all
    note IH = "1.IH"[OF True r1 p(1,2) "1.prems"(3,4) p(3) "1.prems"(6-9)]
    from IH obtain out' where
      r: "resize_rows_x data width channels srcY y (x + 1) out1 = Inr out'"
      and l: "length out' = length out1"
      and v: "\<forall>i<length out1. out' ! i =
                 (if rb + (x + 1) * channels \<le> int i \<and> int i < rb + width * channels
                  then data ! nat (sb + (int i - rb)) else out1 ! i)"
      by blast
    have unfold: "resize_rows_x data width channels srcY y x out = Inr out'"
      using True r1 r by (subst resize_rows_x.simps) simp
    have "\<forall>i<length out. out' ! i =
                 (if rb + x * channels \<le> int i \<and> int i < rb + width * channels
                  then data ! nat (sb + (int i - rb)) else out ! i)"
    proof (intro allI impI)
      fix i assume i: "i < length out"
      have e: "rb + (x + 1) * channels = bd + channels" by (simp add: bd_def algebra_simps)
      have s: "bs + (int i - bd) = sb + (int i - rb)" by (simp add: bd_def bs_def)
      have o1: "out1 ! i = (if bd \<le> int i \<and> int i < bd + channels
                  then data ! nat (sb + (int i - rb)) else out ! i)"
        using v1[rule_format, OF i] by (simp only: s add.right_neutral)
      have o': "out' ! i = (if bd + channels \<le> int i \<and> int i < rb + width * channels
                  then data ! nat (sb + (int i - rb)) else out1 ! i)"
        using v i l1 e by simp
      have le: "bd + channels \<le> rb + width * channels"
        using step by (simp add: bd_def)
      show "out' ! i = (if rb + x * channels \<le> int i \<and> int i < rb + width * channels
                  then data ! nat (sb + (int i - rb)) else out ! i)"
        using o1 o' le "1.prems"(3) unfolding bd_def by (auto split: if_splits)
    qed
    then show ?thesis using unfold l l1 by simp
  qed
qed

lemma src_row_bounds:
  assumes "0 \<le> y" "y < outHeight" "1 \<le> inHeight" "y * inHeight \<le> INT_MAX"
  shows "c_div (mul32 y inHeight) outHeight = (y * inHeight) div outHeight"
    and "0 \<le> (y * inHeight) div outHeight"
    and "(y * inHeight) div outHeight < inHeight"
proof -
  have pos: "0 < outHeight" using assms by simp
  have nn: "0 \<le> y * inHeight" using assms by simp
  have "mul32 y inHeight = y * inHeight" using nn assms(4) by (rule mul32_exact)
  then show "c_div (mul32 y inHeight) outHeight = (y * inHeight) div outHeight"
    using nn pos by (simp add: c_div_nonneg)
  show "0 \<le> (y * inHeight) div outHeight"
    using nn pos by (simp add: pos_imp_zdiv_nonneg_iff)
  have "y * inHeight < outHeight * inHeight"
    using assms by (intro mult_strict_right_mono) simp_all
  then have "y * inHeight - inHeight * outHeight < 0" by (simp add: mult.commute)
  then have "(y * inHeight - inHeight * outHeight) div outHeight < 0"
    using pos by (simp only: pos_imp_zdiv_neg_iff)
  moreover have "(y * inHeight - inHeight * outHeight) div outHeight
                 = (y * inHeight) div outHeight - inHeight"
    using pos div_mult_self1[of outHeight "y * inHeight" "- inHeight"] by simp
  ultimately show "(y * inHeight) div outHeight < inHeight" by simp
qed

lemma resize_rows_y_spec:
  assumes "0 \<le> y" "y \<le> y1" "y1 \<le> outHeight" "0 \<le> width" "0 \<le> channels"
    and "outHeight * W \<le> int (length out)"
    and "int (length data) = inHeight * W"
    and "1 \<le> outHeight \<longrightarrow> 1 \<le> inHeight"
    and "width * channels = W"
    and "outHeight * W \<le> INT_MAX" "inHeight * W \<le> INT_MAX" "(y1 - 1) * inHeight \<le> INT_MAX"
  shows "\<exists>out'. resize_rows_y data width inHeight outHeight channels y out
                 = resize_rows_y data width inHeight outHeight channels y1 out'
           \<and> length out' = length out
           \<and> (\<forall>i<length out. out' ! i =
                 (if y * W \<le> int i \<and> int i < y1 * W
                  then data ! nat ((int i div W * inHeight) div outHeight * W + int i mod W)
                  else out ! i))"
  using assms
proof (induction data width inHeight outHeight channels y out rule: resize_rows_y.induct)
  case (1 data width inHeight outHeight channels y out)
  have W0: "0 \<le> W" using "1.prems" by auto
  show ?case
  proof (cases "y < y1")
    case False
    then have "y = y1" using "1.prems" by simp
    then show ?thesis by (intro exI[of _ out]) auto
  next
    case True
    then have lt: "y < outHeight" using "1.prems" by simp
    then have oh: "1 \<le> outHeight" "outHeight \<noteq> 0" and ih: "1 \<le> inHeight"
      using "1.prems" by simp_all
    define srcY where "srcY = c_div (mul32 y inHeight) outHeight"
    have "y * inHeight \<le> (y1 - 1) * inHeight"
      using True ih by (intro mult_right_mono) simp_all
    then have fit: "y * inHeight \<le> INT_MAX" using "1.prems"(12) by simp
    note sb = src_row_bounds[OF "1.prems"(1) lt ih fit]
    have srcY: "srcY = (y * inHeight) div outHeight" "0 \<le> srcY" "srcY < inHeight"
      using sb by (simp_all add: srcY_def)
    define rb where "rb = y * W"
    define sbs where "sbs = srcY * W"
    have "(y + 1) * W \<le> outHeight * W"
      using lt W0 by (intro mult_right_mono) simp_all
    then have rbW: "rb + W \<le> outHeight * W" by (simp add: rb_def algebra_simps)
    have "(srcY + 1) * W \<le> inHeight * W"
      using srcY(3) W0 by (intro mult_right_mono) simp_all
    then have sbW: "sbs + W \<le> inHeight * W" by (simp add: sbs_def algebra_simps)
    have W: "W = width * channels" using "1.prems"(9) by simp
    have po: "\<forall>x' c'. 0 \<le> x' \<and> x' < width \<and> 0 \<le> c' \<and> c' < channels \<longrightarrow>
           pixel_offset y width x' channels c' = rb + x' * channels + c'"
    proof (intro allI impI)
      fix x' c' assume a: "0 \<le> x' \<and> x' < width \<and> 0 \<le> c' \<and> c' < channels"
      then have p: "0 \<le> x'" "x' < width" "0 \<le> c'" "c' < channels" by simp_all
      have "(y * width + x') * channels + c' < width * outHeight * channels"
        using pixel_index(4)[OF "1.prems"(1) p lt] .
      then have "(y * width + x') * channels + c' \<le> INT_MAX"
        using "1.prems"(10) by (simp add: W algebra_simps)
      then have "pixel_offset y width x' channels c' = (y * width + x') * channels + c'"
        using "1.prems"(1) p by (intro pixel_offset_exact)
      then show "pixel_offset y width x' channels c' = rb + x' * channels + c'"
        by (simp add: rb_def W algebra_simps)
    qed
    have ps: "\<forall>x' c'. 0 \<le> x' \<and> x' < width \<and> 0 \<le> c' \<and> c' < channels \<longrightarrow>
           pixel_offset srcY width x' channels c' = sbs + x' * channels + c'"
    proof (intro allI impI)
      fix x' c' assume a: "0 \<le> x' \<and> x' < width \<and> 0 \<le> c' \<and> c' < channels"
      then have p: "0 \<le> x'" "x' < width" "0 \<le> c'" "c' < channels" by simp_all
      have "(srcY * width + x') * channels + c' < width * inHeight * channels"
        using pixel_index(4)[OF srcY(2) p srcY(3)] .
      then have "(srcY * width + x') * channels + c' \<le> INT_MAX"
        using "1.prems"(11) by (simp add: W algebra_simps)
      then have "pixel_offset srcY width x' channels c' = (srcY * width + x') * channels + c'"
        using srcY(2) p by (intro pixel_offset_exact)
      then show "pixel_offset srcY width x' channels c' = sbs + x' * channels + c'"
        by (simp add: sbs_def W algebra_simps)
    qed
    have rb0: "0 \<le> rb" using "1.prems"(1) W0 by (simp add: rb_def)
    have sbs0: "0 \<le> sbs" using srcY(2) W0 by (simp add: sbs_def)
    have rbl: "rb + width * channels \<le> int (length out)"
      using rbW "1.prems"(6,9) by linarith
    have sbl: "sbs + width * channels \<le> int (length data)"
      using sbW "1.prems"(7,9) by linarith
    have c: "(0::int) \<le> 0" "0 \<le> width" "0 \<le> channels"
        "0 \<le> rb" "rb + width * channels \<le> int (length out)"
        "0 \<le> sbs" "sbs + width * channels \<le> int (length data)"
      using "1.prems"(4,5) rb0 sbs0 rbl sbl by simp_all
    from resize_rows_x_spec[OF c po ps]
    obtain out1 where
      r1: "resize_rows_x data width channels srcY y 0 out = Inr out1"
      and l1: "length out1 = length out"
      and v1: "\<forall>i<length out. out1 ! i =
                 (if rb + 0 * channels \<le> int i \<and> int i < rb + width * channels
                  then data ! nat (sbs + (int i - rb)) else out ! i)"
      by blast
    have p: "0 \<le> y + 1" "y + 1 \<le> y1" "outHeight * W \<le> int (length out1)"
      using "1.prems" True l1 by simp_all
    note IH = "1.IH"[OF lt oh(2) srcY_def r1 p(1,2) "1.prems"(3,4,5) p(3) "1.prems"(7-12)]
    from IH obtain out' where
      r: "resize_rows_y data width inHeight outHeight channels (y + 1) out1
          = resize_rows_y data width inHeight outHeight channels y1 out'"
      and l: "length out' = length out1"
      and v: "\<forall>i<length out1. out' ! i =
                 (if (y + 1) * W \<le> int i \<and> int i < y1 * W
                  then data ! nat ((int i div W * inHeight) div outHeight * W + int i mod W)
                  else out1 ! i)"
      by blast
    have "resize_rows_y data width inHeight outHeight channels y out
          = resize_rows_y data width inHeight outHeight channels (y + 1) out1"
      using lt oh(2) r1
      by (subst resize_rows_y.simps) (simp add: Let_def srcY_def[symmetric])
    then have unfold: "resize_rows_y data width inHeight outHeight channels y out
                  = resize_rows_y data width inHeight outHeight channels y1 out'"
      using r by (rule trans)
    have "(y + 1) * W \<le> y1 * W" using True W0 by (intro mult_right_mono) simp_all
    then have rby1: "rb + W \<le> y1 * W" by (simp add: rb_def algebra_simps)
    have "\<forall>i<length out. out' ! i =
                 (if y * W \<le> int i \<and> int i < y1 * W
                  then data ! nat ((int i div W * inHeight) div outHeight * W + int i mod W)
                  else out ! i)"
    proof (intro allI impI)
      fix i assume i: "i < length out"
      have o1: "out1 ! i = (if rb \<le> int i \<and> int i < rb + W
                  then data ! nat (sbs + (int i - rb)) else out ! i)"
        using v1[rule_format, OF i] "1.prems"(9) by simp
      have o': "out' ! i = (if rb + W \<le> int i \<and> int i < y1 * W
                  then data ! nat ((int i div W * inHeight) div outHeight * W + int i mod W)
                  else out1 ! i)"
        using v i l1 by (simp add: rb_def algebra_simps)
      show "out' ! i = (if y * W \<le> int i \<and> int i < y1 * W
                  then data ! nat ((int i div W * inHeight) div outHeight * W + int i mod W)
                  else out ! i)"
      proof (cases "rb \<le> int i \<and> int i < rb + W")
        case inrow: True
        then have Wpos: "0 < W" by simp
        have i_eq: "int i = W * y + (int i - rb)" by (simp add: rb_def mult.commute)
        have d: "int i div W = y"
          using inrow by (intro int_div_pos_eq[OF i_eq]) simp_all
        have m: "int i mod W = int i - rb"
          using inrow by (intro int_mod_pos_eq[OF i_eq]) simp_all
        have "data ! nat (sbs + (int i - rb))
              = data ! nat ((int i div W * inHeight) div outHeight * W + int i mod W)"
          by (simp add: d m sbs_def srcY(1))
        then show ?thesis using o1 o' inrow rby1 by (simp add: rb_def)
      next
        case False
        then show ?thesis using o1 o' W0 by (auto simp: rb_def)
      qed
    qed
    then have "resize_rows_y data width inHeight outHeight channels y out
                 = resize_rows_y data width inHeight outHeight channels y1 out'
           \<and> length out' = length out
           \<and> (\<forall>i<length out. out' ! i =
                 (if y * W \<le> int i \<and> int i < y1 * W
                  then data ! nat ((int i div W * inHeight) div outHeight * W + int i mod W)
                  else out ! i))"
      using unfold l l1 by simp
    then show ?thesis by (rule exI[of _ out'])
  qed
qed

lemma resize_rows_spec:
  assumes "0 \<le> width" "0 \<le> channels" "0 \<le> outHeight"
    and "1 \<le> outHeight \<longrightarrow> 1 \<le> inHeight"
    and "int (length data) = width * inHeight * channels"
    and "width * inHeight * channels \<le> INT_MAX" "width * outHeight * channels \<le> INT_MAX"
    and "(outHeight - 1) * inHeight \<le> INT_MAX"
  shows "\<exists>out'. resize_rows data width inHeight outHeight channels = Inr out'
           \<and> int (length out') = width * outHeight * channels
           \<and> (\<forall>i<length out'. out' ! i =
                 data ! nat ((int i div (width * channels) * inHeight) div outHeight
                              * (width * channels) + int i mod (width * channels)))"
proof -
  define W where "W = width * channels"
  define n where "n = width * outHeight * channels"
  have n0: "0 \<le> n" using assms by (simp add: n_def)
  have nW: "n = outHeight * W" by (simp add: n_def W_def algebra_simps)
  have n32: "mul32 (mul32 width outHeight) channels = n"
    unfolding n_def using assms(1,3,2,7) by (rule mul32_mul32_exact)
  have c: "(0::int) \<le> 0" "0 \<le> outHeight" "outHeight \<le> outHeight" "0 \<le> width" "0 \<le> channels"
      "outHeight * W \<le> int (length (replicate (nat n) (0::byte)))"
      "int (length data) = inHeight * W"
      "1 \<le> outHeight \<longrightarrow> 1 \<le> inHeight" "width * channels = W"
      "outHeight * W \<le> INT_MAX" "inHeight * W \<le> INT_MAX" "(outHeight - 1) * inHeight \<le> INT_MAX"
    using assms n0 nW by (simp_all add: W_def algebra_simps)
  from resize_rows_y_spec[OF c]
  obtain out' where
    r: "resize_rows_y data width inHeight outHeight channels 0 (replicate (nat n) 0)
        = resize_rows_y data width inHeight outHeight channels outHeight out'"
    and l: "length out' = length (replicate (nat n) (0::byte))"
    and v: "\<forall>i<length (replicate (nat n) (0::byte)). out' ! i =
                 (if 0 * W \<le> int i \<and> int i < outHeight * W
                  then data ! nat ((int i div W * inHeight) div outHeight * W + int i mod W)
                  else replicate (nat n) 0 ! i)"
    by blast
  have "resize_rows_y data width inHeight outHeight channels outHeight out' = Inr out'"
    by (subst resize_rows_y.simps) simp
  then have "resize_rows data width inHeight outHeight channels = Inr out'"
    using r n0 n32 by (simp add: resize_rows_def Let_def)
  moreover have "int (length out') = width * outHeight * channels"
    using l n0 by (simp add: n_def)
  moreover have "\<forall>i<length out'. out' ! i =
                 data ! nat ((int i div W * inHeight) div outHeight * W + int i mod W)"
  proof (intro allI impI)
    fix i assume "i < length out'"
    then have "i < nat n" using l by simp
    then have "int i < outHeight * W" using nW by simp
    then show "out' ! i = data ! nat ((int i div W * inHeight) div outHeight * W + int i mod W)"
      using v \<open>i < nat n\<close> by simp
  qed
  ultimately show ?thesis unfolding W_def by blast
qed

lemma localOutHeight_zero:
  "localInHeight height sz rank = 0 \<Longrightarrow> localOutHeight newHeight height sz rank = 0"
  by (simp add: localOutHeight_def mul32_zero_right c_div_def)

lemma resize_rows_no_output: "resize_rows data width inHeight 0 channels = Inr []"
  by (simp add: resize_rows_def resize_rows_y.simps mul32_def wrap32_def)

lemma resize_rows_c_no_division:
  "resize_rows_c data width channels srcY y x c out \<noteq> Inl DivisionByZero"
proof (induction data width channels srcY y x c out rule: resize_rows_c.induct)
  case (1 data width channels srcY y x c out)
  show ?case
    using "1.IH" by (subst resize_rows_c.simps) (auto simp: Let_def)
qed

lemma resize_rows_x_no_division:
  "resize_rows_x data width channels srcY y x out \<noteq> Inl DivisionByZero"
proof (induction data width channels srcY y x out rule: resize_rows_x.induct)
  case (1 data width channels srcY y x out)
  show ?case
    using "1.IH" resize_rows_c_no_division[of data width channels srcY y x 0 out]
    by (subst resize_rows_x.simps) (auto split: sum.splits)
qed

lemma resize_rows_y_no_division:
  "0 \<le> y \<Longrightarrow> resize_rows_y data width inHeight outHeight channels y out \<noteq> Inl DivisionByZero"
proof (induction data width inHeight outHeight channels y out rule: resize_rows_y.induct)
  case (1 data width inHeight outHeight channels y out)
  show ?case
  proof (cases "y < outHeight")
    case False
    then show ?thesis by (subst resize_rows_y.simps) simp
  next
    case True
    then have nz: "outHeight \<noteq> 0" using "1.prems" by simp
    show ?thesis
      using True nz "1.IH"[OF True nz refl] "1.prems"
        resize_rows_x_no_division[of data width channels "c_div (mul32 y inHeight) outHeight" y 0 out]
      by (subst resize_rows_y.simps) (auto simp: Let_def split: sum.splits)
  qed
qed

lemma resize_rows_no_division:
  "resize_rows data width inHeight outHeight channels \<noteq> Inl DivisionByZero"
  using resize_rows_y_no_division[of 0 data width inHeight outHeight channels]
  by (simp add: resize_rows_def Let_def)

lemma resize_rows_tall_block:
  "resize_rows (replicate 50000 0) 1 50000 50000 1 = Inl OutOfBounds"
proof -
  define data :: "byte list" where "data = replicate 50000 0"
  define out :: "byte list" where "out = replicate 50000 0"
  have c: "(0::int) \<le> 0" "(0::int) \<le> 42950" "(42950::int) \<le> 50000" "(0::int) \<le> 1" "(0::int) \<le> 1"
      "50000 * 1 \<le> int (length out)" "int (length data) = 50000 * 1"
      "(1::int) \<le> 50000 \<longrightarrow> (1::int) \<le> 50000" "(1::int) * 1 = 1"
      "(50000::int) * 1 \<le> INT_MAX" "(50000::int) * 1 \<le> INT_MAX" "(42950 - 1) * (50000::int) \<le> INT_MAX"
    by (simp_all add: data_def out_def INT_MAX_def)
  from resize_rows_y_spec[OF c] obtain out' where
    r: "resize_rows_y data 1 50000 50000 1 0 out = resize_rows_y data 1 50000 50000 1 42950 out'"
    by blast
  have s: "c_div (mul32 42950 50000) 50000 = - 42949"
    by (simp add: mul32_def wrap32_def c_div_def)
  have o: "pixel_offset (- 42949) 1 0 1 0 = - 42949"
    by (simp add: pixel_offset_def mul32_def add32_def wrap32_def)
  have "resize_rows_c data 1 1 (- 42949) 42950 0 0 out' = Inl OutOfBounds"
    by (subst resize_rows_c.simps) (simp add: o Let_def)
  then have "resize_rows_x data 1 1 (- 42949) 42950 0 out' = Inl OutOfBounds"
    by (subst resize_rows_x.simps) simp
  then have "resize_rows_y data 1 50000 50000 1 42950 out' = Inl OutOfBounds"
    by (subst resize_rows_y.simps) (simp add: s Let_def)
  then have "resize_rows_y data 1 50000 50000 1 0 out = Inl OutOfBounds"
    using r by simp
  moreover have "mul32 (mul32 1 50000) 1 = 50000"
    by (simp add: mul32_def wrap32_def)
  ultimately show ?thesis
    by (simp add: resize_rows_def Let_def data_def out_def)
qed

text \<open>
  Claim C3, as amended. For every input block of \<open>width * inHeight * channels\<close> bytes with
  at least one input row (width and channel count not negative) and every output height of
  at least one row, provided that the two buffer lengths \<open>width * inHeight * channels\<close> and
  \<open>width * outHeight * channels\<close> and the product \<open>(outHeight - 1) * inHeight\<close> fit the
  32-bit \<open>int\<close>, the resampler returns a block of \<open>width * outHeight * channels\<close> bytes in
  which the byte of row \<open>y\<close>, column \<open>x\<close> and channel \<open>c\<close> is the input byte of row
  \<open>(y * inHeight) div outHeight\<close>, column \<open>x\<close> and channel \<open>c\<close>; width and channel count
  are those of the input.
\<close>

theorem resize_rows_nearest_row:
  assumes "0 \<le> width" "0 \<le> channels" "1 \<le> inHeight" "1 \<le> outHeight"
    and "int (length data) = width * inHeight * channels"
    and "width * inHeight * channels \<le> INT_MAX" "width * outHeight * channels \<le> INT_MAX"
    and "(outHeight - 1) * inHeight \<le> INT_MAX"
  shows "\<exists>out. resize_rows data width inHeight outHeight channels = Inr out
           \<and> int (length out) = width * outHeight * channels
           \<and> (\<forall>y x c. 0 \<le> y \<and> y < outHeight \<and> 0 \<le> x \<and> x < width \<and> 0 \<le> c \<and> c < channels \<longrightarrow>
                 out ! nat ((y * width + x) * channels + c)
                 = data ! nat ((((y * inHeight) div outHeight) * width + x) * channels + c))"
proof -
  have c: "0 \<le> outHeight" "1 \<le> outHeight \<longrightarrow> 1 \<le> inHeight" using assms by simp_all
  from resize_rows_spec[OF assms(1,2) c assms(5-8)] obtain out where
    r: "resize_rows data width inHeight outHeight channels = Inr out"
    and l: "int (length out) = width * outHeight * channels"
    and v: "\<forall>i<length out. out ! i =
                 data ! nat ((int i div (width * channels) * inHeight) div outHeight
                              * (width * channels) + int i mod (width * channels))"
    by blast
  have w: "\<forall>y x c. 0 \<le> y \<and> y < outHeight \<and> 0 \<le> x \<and> x < width \<and> 0 \<le> c \<and> c < channels \<longrightarrow>
                 out ! nat ((y * width + x) * channels + c)
                 = data ! nat ((((y * inHeight) div outHeight) * width + x) * channels + c)"
  proof (intro allI impI)
    fix y x c
    assume a: "0 \<le> y \<and> y < outHeight \<and> 0 \<le> x \<and> x < width \<and> 0 \<le> c \<and> c < channels"
    define i where "i = (y * width + x) * channels + c"
    have p: "0 \<le> y" "0 \<le> x" "x < width" "0 \<le> c" "c < channels" "y < outHeight"
      using a by simp_all
    note pi = pixel_index[OF p(1-5)]
    have i0: "0 \<le> i" using pi(3) by (simp add: i_def)
    have "i < width * outHeight * channels" using pi(4)[OF p(6)] by (simp add: i_def)
    then have il: "nat i < length out" using l i0 by simp
    have "out ! nat i = data ! nat ((i div (width * channels) * inHeight) div outHeight
                              * (width * channels) + i mod (width * channels))"
      using v il i0 by simp
    also have "\<dots> = data ! nat ((y * inHeight) div outHeight * (width * channels) + (x * channels + c))"
      using pi(1,2) by (simp add: i_def)
    also have "(y * inHeight) div outHeight * (width * channels) + (x * channels + c)
               = (((y * inHeight) div outHeight) * width + x) * channels + c"
      by (simp add: algebra_simps)
    finally show "out ! nat ((y * width + x) * channels + c)
                 = data ! nat ((((y * inHeight) div outHeight) * width + x) * channels + c)"
      by (simp add: i_def)
  qed
  have "resize_rows data width inHeight outHeight channels = Inr out
           \<and> int (length out) = width * outHeight * channels
           \<and> (\<forall>y x c. 0 \<le> y \<and> y < outHeight \<and> 0 \<le> x \<and> x < width \<and> 0 \<le> c \<and> c < channels \<longrightarrow>
                 out ! nat ((y * width + x) * channels + c)
                 = data ! nat ((((y * inHeight) div outHeight) * width + x) * channels + c))"
    by (intro conjI) (fact r l w)+
  then show ?thesis by (rule exI[of _ out])
qed

theorem resize_rows_nearest_row_witness:
  "(0::int) \<le> 1 \<and> (0::int) \<le> 2 \<and> (1::int) \<le> 3 \<and> (1::int) \<le> 2
   \<and> int (length [10, 11, 20, 21, 30, 31 :: byte]) = 1 * 3 * 2
   \<and> (1::int) * 3 * 2 \<le> INT_MAX \<and> (1::int) * 2 * 2 \<le> INT_MAX \<and> (2 - 1) * (3::int) \<le> INT_MAX
   \<and> resize_rows [10, 11, 20, 21, 30, 31] 1 3 2 2 = Inr [10, 11, 20, 21]
   \<and> (\<exists>out. resize_rows [10, 11, 20, 21, 30, 31] 1 3 2 2 = Inr out
         \<and> int (length out) = 1 * 2 * 2
         \<and> out ! nat ((1 * 1 + 0) * 2 + 1)
           = [10, 11, 20, 21, 30, 31] ! nat ((((1 * 3) div 2) * 1 + 0) * 2 + 1))"
proof -
  have h: "(0::int) \<le> 1" "(0::int) \<le> 2" "(1::int) \<le> 3" "(1::int) \<le> 2"
    "int (length [10, 11, 20, 21, 30, 31 :: byte]) = 1 * 3 * 2"
    "(1::int) * 3 * 2 \<le> INT_MAX" "(1::int) * 2 * 2 \<le> INT_MAX" "(2 - 1) * (3::int) \<le> INT_MAX"
    by (simp_all add: INT_MAX_def)
  from resize_rows_nearest_row[OF h] obtain out where
    r: "resize_rows [10, 11, 20, 21, 30, 31] 1 3 2 2 = Inr out"
    and l: "int (length out) = 1 * 2 * 2"
    and v: "\<forall>y x c. 0 \<le> y \<and> y < 2 \<and> 0 \<le> x \<and> x < 1 \<and> 0 \<le> c \<and> c < 2 \<longrightarrow>
                 out ! nat ((y * 1 + x) * 2 + c)
                 = [10, 11, 20, 21, 30, 31] ! nat ((((y * 3) div 2) * 1 + x) * 2 + c)"
    by blast
  have e: "resize_rows [10, 11, 20, 21, 30, 31] 1 3 2 2 = Inr [10, 11, 20, 21]"
    by code_simp
  have z: "out ! nat ((1 * 1 + 0) * 2 + 1)
           = [10, 11, 20, 21, 30, 31] ! nat ((((1 * 3) div 2) * 1 + 0) * 2 + 1)"
    using v[rule_format, of 1 0 1] by simp
  have x: "\<exists>out. resize_rows [10, 11, 20, 21, 30, 31] 1 3 2 2 = Inr out
         \<and> int (length out) = 1 * 2 * 2
         \<and> out ! nat ((1 * 1 + 0) * 2 + 1)
           = [10, 11, 20, 21, 30, 31] ! nat ((((1 * 3) div 2) * 1 + 0) * 2 + 1)"
    by (intro exI[of _ out] conjI) (fact r l z)+
  show ?thesis by (intro conjI) (fact h e x)+
qed

text \<open>
  Claim C3 as stated fails in two places. For an input block without rows: with
  \<open>width = 1\<close>, \<open>inHeight = 0\<close>, \<open>channels = 1\<close> the block is empty, and for \<open>outHeight = 1\<close>
  the resampler reads \<open>data[0]\<close>, outside the block. Where the product overflows: for a
  block of 50000 rows of one byte resampled to 50000 rows the machine computes
  \<open>42950 * 50000\<close> as \<open>-2147467296\<close>, the source row is \<open>-42949\<close>, and the resampler reads
  before the block.
\<close>

theorem resize_rows_empty_input_counterexample:
  "int (length ([] :: byte list)) = 1 * 0 * 1 \<and> resize_rows [] 1 0 1 1 = Inl OutOfBounds
   \<and> int (length (replicate 50000 (0::byte))) = 1 * 50000 * 1
   \<and> c_div (mul32 42950 50000) 50000 = - 42949
   \<and> resize_rows (replicate 50000 0) 1 50000 50000 1 = Inl OutOfBounds"
proof -
  have a: "resize_rows [] 1 0 1 1 = Inl OutOfBounds" by code_simp
  have s: "c_div (mul32 42950 50000) 50000 = - 42949"
    by (simp add: mul32_def wrap32_def c_div_def)
  show ?thesis using a s resize_rows_tall_block by simp
qed

text \<open>
  Claim C5. When there are more workers than rows, the workers from rank \<open>height\<close> on are
  assigned no input row. For a worker with no input row the output row count
  \<open>newHeight * 0 / height\<close> is 0, the resampler returns the empty block, and the worker as a
  whole returns the empty block, without error. The resampler never divides by zero: for
  output height 0 it returns the empty block, and no call of it ends in a division by zero.
\<close>

theorem zero_row_worker_empty_block:
  assumes "1 \<le> height" "height < sz"
  shows "(height \<le> rank \<longrightarrow> localInHeight height sz rank = 0)
       \<and> (localInHeight height sz rank = 0 \<longrightarrow>
            localOutHeight newHeight height sz rank = 0
            \<and> worker localIn width height channels newHeight sz rank filterType = Inr [])
       \<and> resize_rows data width inHeight 0 channels = Inr []
       \<and> resize_rows data width inHeight outHeight channels \<noteq> Inl DivisionByZero"
proof -
  have h: "0 \<le> height" "0 < sz" using assms by simp_all
  have a: "height \<le> rank \<longrightarrow> localInHeight height sz rank = 0"
    using assms h by (simp add: localInHeight_def rowsPerProc_eq remainder_eq)
  have f: "apply_filter [] width 0 channels filterType = Inr []"
    using apply_filter_whole[of "[]" width 0 channels filterType] by simp
  have b: "localInHeight height sz rank = 0 \<longrightarrow>
            localOutHeight newHeight height sz rank = 0
            \<and> worker localIn width height channels newHeight sz rank filterType = Inr []"
    using assms f
    by (simp add: localOutHeight_zero worker_def Let_def resize_rows_no_output)
  show ?thesis using a b resize_rows_no_output resize_rows_no_division by blast
qed

theorem zero_row_worker_empty_block_witness:
  "(1::int) \<le> 2 \<and> (2::int) < 4 \<and> (2::int) \<le> 3
   \<and> localInHeight 2 4 3 = 0 \<and> localOutHeight 5 2 4 3 = 0
   \<and> worker [] 6 2 3 5 4 3 ''invert'' = Inr []"
proof -
  have h: "(1::int) \<le> 2" "(2::int) < 4" by simp_all
  note t = zero_row_worker_empty_block[OF h, of 3 5 "[]" 6 3 "''invert''" "[]" 0 0]
  have z: "localInHeight 2 4 3 = 0" using t by simp
  show ?thesis using h z t by simp
qed

text \<open>
  Claim C7, as amended. For every block of \<open>width * h * channels\<close> bytes with \<open>h\<close> at least 1
  (width and channel count being counts, hence not negative), provided that the buffer
  length \<open>width * h * channels\<close> and the product \<open>(h - 1) * h\<close> fit the 32-bit \<open>int\<close>,
  resampling from height \<open>h\<close> to height \<open>h\<close> returns the block itself.
\<close>

theorem resize_rows_identity:
  assumes "0 \<le> width" "0 \<le> channels" "1 \<le> h"
    and "int (length block) = width * h * channels"
    and "width * h * channels \<le> INT_MAX" "(h - 1) * h \<le> INT_MAX"
  shows "resize_rows block width h h channels = Inr block"
proof -
  have c: "0 \<le> h" "1 \<le> h \<longrightarrow> 1 \<le> h" using assms by simp_all
  from resize_rows_spec[OF assms(1,2) c assms(4,5,5,6)] obtain out where
    r: "resize_rows block width h h channels = Inr out"
    and l: "int (length out) = width * h * channels"
    and v: "\<forall>i<length out. out ! i =
                 block ! nat ((int i div (width * channels) * h) div h
                              * (width * channels) + int i mod (width * channels))"
    by blast
  have "out = block"
  proof (rule nth_equalityI)
    show "length out = length block" using l assms(4) by simp
  next
    fix i assume i: "i < length out"
    have "(int i div (width * channels) * h) div h = int i div (width * channels)"
      using assms(3) by simp
    then have "out ! i = block ! nat (int i div (width * channels) * (width * channels)
                                       + int i mod (width * channels))"
      using v i by simp
    moreover have "int i div (width * channels) * (width * channels)
                   + int i mod (width * channels) = int i"
      by (rule div_mult_mod_eq)
    ultimately show "out ! i = block ! i" by simp
  qed
  then show ?thesis using r by simp
qed

theorem resize_rows_identity_witness:
  "(0::int) \<le> 2 \<and> (0::int) \<le> 1 \<and> (1::int) \<le> 2
   \<and> int (length [1, 2, 3, 4 :: byte]) = 2 * 2 * 1
   \<and> (2::int) * 2 * 1 \<le> INT_MAX \<and> (2 - 1) * (2::int) \<le> INT_MAX
   \<and> resize_rows [1, 2, 3, 4] 2 2 2 1 = Inr [1, 2, 3, 4]"
proof -
  have h: "(0::int) \<le> 2" "(0::int) \<le> 1" "(1::int) \<le> 2"
    "int (length [1, 2, 3, 4 :: byte]) = 2 * 2 * 1"
    "(2::int) * 2 * 1 \<le> INT_MAX" "(2 - 1) * (2::int) \<le> INT_MAX"
    by (simp_all add: INT_MAX_def)
  note t = resize_rows_identity[OF h]
  show ?thesis by (intro conjI) (fact h t)+
qed

text \<open>
  Claim C7 as stated fails where the product overflows: a block of 50000 rows of one byte
  has \<open>h\<close> at least 1, and resampling it from 50000 to 50000 rows does not return the
  block: at row 42950 the source row is computed as \<open>-42949\<close> and the read falls before the
  block.
\<close>

theorem resize_rows_identity_overflow_counterexample:
  "(1::int) \<le> 50000 \<and> int (length (replicate 50000 (0::byte))) = 1 * 50000 * 1
   \<and> resize_rows (replicate 50000 0) 1 50000 50000 1 = Inl OutOfBounds
   \<and> resize_rows (replicate 50000 0) 1 50000 50000 1 \<noteq> Inr (replicate 50000 0)"
  using resize_rows_tall_block by simp

text \<open>
  Claim C10, as amended. For every call of the resampler whose input buffer has exactly
  \<open>width * inHeight * channels\<close> bytes (width, channel count and output height being
  counts, hence not negative) and where an output height of at least 1 comes with an
  input height of at least 1, provided that the two buffer lengths
  \<open>width * inHeight * channels\<close> and \<open>width * outHeight * channels\<close> and the product
  \<open>(outHeight - 1) * inHeight\<close> fit the 32-bit \<open>int\<close>: the source row the machine computes is
  \<open>srcY = (y * inHeight) div outHeight\<close> and is below \<open>inHeight\<close> for every \<open>y < outHeight\<close>,
  every read index is \<open>(srcY * width + x) * channels + c\<close> and lies inside the buffer, and the
  call returns a block. The program meets the precondition on the heights: a rank whose
  output row count is at least 1 has at least one input row.
\<close>

theorem resize_rows_reads_in_bounds:
  assumes "0 \<le> width" "0 \<le> channels" "0 \<le> outHeight"
    and "int (length data) = width * inHeight * channels"
    and "1 \<le> outHeight \<longrightarrow> 1 \<le> inHeight"
    and "width * inHeight * channels \<le> INT_MAX" "width * outHeight * channels \<le> INT_MAX"
    and "(outHeight - 1) * inHeight \<le> INT_MAX"
  shows "(\<forall>y x c. 0 \<le> y \<and> y < outHeight \<and> 0 \<le> x \<and> x < width \<and> 0 \<le> c \<and> c < channels \<longrightarrow>
            c_div (mul32 y inHeight) outHeight = (y * inHeight) div outHeight
            \<and> 0 \<le> c_div (mul32 y inHeight) outHeight
            \<and> c_div (mul32 y inHeight) outHeight < inHeight
            \<and> pixel_offset (c_div (mul32 y inHeight) outHeight) width x channels c
                = ((y * inHeight) div outHeight * width + x) * channels + c
            \<and> 0 \<le> pixel_offset (c_div (mul32 y inHeight) outHeight) width x channels c
            \<and> pixel_offset (c_div (mul32 y inHeight) outHeight) width x channels c
                < int (length data))
       \<and> (\<exists>out. resize_rows data width inHeight outHeight channels = Inr out)
       \<and> (1 \<le> height \<and> 1 \<le> sz \<and> 1 \<le> localOutHeight newHeight height sz rank
            \<longrightarrow> 1 \<le> localInHeight height sz rank)"
proof -
  have a: "\<forall>y x c. 0 \<le> y \<and> y < outHeight \<and> 0 \<le> x \<and> x < width \<and> 0 \<le> c \<and> c < channels \<longrightarrow>
            c_div (mul32 y inHeight) outHeight = (y * inHeight) div outHeight
            \<and> 0 \<le> c_div (mul32 y inHeight) outHeight
            \<and> c_div (mul32 y inHeight) outHeight < inHeight
            \<and> pixel_offset (c_div (mul32 y inHeight) outHeight) width x channels c
                = ((y * inHeight) div outHeight * width + x) * channels + c
            \<and> 0 \<le> pixel_offset (c_div (mul32 y inHeight) outHeight) width x channels c
            \<and> pixel_offset (c_div (mul32 y inHeight) outHeight) width x channels c
                < int (length data)"
  proof (intro allI impI)
    fix y x c
    assume b: "0 \<le> y \<and> y < outHeight \<and> 0 \<le> x \<and> x < width \<and> 0 \<le> c \<and> c < channels"
    then have p: "0 \<le> y" "y < outHeight" "0 \<le> x" "x < width" "0 \<le> c" "c < channels"
      by simp_all
    have ih: "1 \<le> inHeight" using p assms(5) by simp
    have "y * inHeight \<le> (outHeight - 1) * inHeight"
      using p ih by (intro mult_right_mono) simp_all
    then have fit: "y * inHeight \<le> INT_MAX" using assms(8) by simp
    note sb = src_row_bounds[OF p(1,2) ih fit]
    define srcY where "srcY = c_div (mul32 y inHeight) outHeight"
    have s: "srcY = (y * inHeight) div outHeight" "0 \<le> srcY" "srcY < inHeight"
      using sb by (simp_all add: srcY_def)
    note pi = pixel_index[OF s(2) p(3-6)]
    have lo: "0 \<le> (srcY * width + x) * channels + c" using pi(3) .
    have hi: "(srcY * width + x) * channels + c < int (length data)"
      using pi(4)[OF s(3)] assms(4) by simp
    have "(srcY * width + x) * channels + c \<le> INT_MAX"
      using hi assms(4,6) by simp
    then have po: "pixel_offset srcY width x channels c = (srcY * width + x) * channels + c"
      using s(2) p(3-6) by (intro pixel_offset_exact)
    show "c_div (mul32 y inHeight) outHeight = (y * inHeight) div outHeight
            \<and> 0 \<le> c_div (mul32 y inHeight) outHeight
            \<and> c_div (mul32 y inHeight) outHeight < inHeight
            \<and> pixel_offset (c_div (mul32 y inHeight) outHeight) width x channels c
                = ((y * inHeight) div outHeight * width + x) * channels + c
            \<and> 0 \<le> pixel_offset (c_div (mul32 y inHeight) outHeight) width x channels c
            \<and> pixel_offset (c_div (mul32 y inHeight) outHeight) width x channels c
                < int (length data)"
      using s lo hi po unfolding srcY_def by simp
  qed
  have b: "\<exists>out. resize_rows data width inHeight outHeight channels = Inr out"
    using resize_rows_spec[OF assms(1,2,3,5,4,6,7,8)] by blast
  have c: "1 \<le> height \<and> 1 \<le> sz \<and> 1 \<le> localOutHeight newHeight height sz rank
            \<longrightarrow> 1 \<le> localInHeight height sz rank"
  proof
    assume d: "1 \<le> height \<and> 1 \<le> sz \<and> 1 \<le> localOutHeight newHeight height sz rank"
    then have "0 \<le> localInHeight height sz rank"
      by (intro localInHeight_nonneg) simp_all
    moreover have "localInHeight height sz rank \<noteq> 0"
      using d localOutHeight_zero[of height sz rank newHeight] by auto
    ultimately show "1 \<le> localInHeight height sz rank" by simp
  qed
  show ?thesis using a b c by blast
qed

theorem resize_rows_reads_in_bounds_witness:
  "(0::int) \<le> 1 \<and> (0::int) \<le> 2 \<and> (0::int) \<le> 5
   \<and> int (length [10, 11, 20, 21, 30, 31 :: byte]) = 1 * 3 * 2
   \<and> (1::int) \<le> 3
   \<and> (1::int) * 3 * 2 \<le> INT_MAX \<and> (1::int) * 5 * 2 \<le> INT_MAX \<and> (5 - 1) * (3::int) \<le> INT_MAX
   \<and> c_div (mul32 4 3) 5 = 2
   \<and> pixel_offset (c_div (mul32 4 3) 5) 1 0 2 1 < int (length [10, 11, 20, 21, 30, 31 :: byte])
   \<and> resize_rows [10, 11, 20, 21, 30, 31] 1 3 5 2
       = Inr [10, 11, 10, 11, 20, 21, 20, 21, 30, 31]"
proof -
  have h: "(0::int) \<le> 1" "(0::int) \<le> 2" "(0::int) \<le> 5"
    "int (length [10, 11, 20, 21, 30, 31 :: byte]) = 1 * 3 * 2"
    "(1::int) \<le> 5 \<longrightarrow> (1::int) \<le> 3"
    "(1::int) * 3 * 2 \<le> INT_MAX" "(1::int) * 5 * 2 \<le> INT_MAX" "(5 - 1) * (3::int) \<le> INT_MAX"
    by (simp_all add: INT_MAX_def)
  note t = resize_rows_reads_in_bounds[OF h, of 1 1 0 0]
  have q: "0 \<le> (4::int) \<and> (4::int) < 5 \<and> 0 \<le> (0::int) \<and> (0::int) < 1 \<and> 0 \<le> (1::int) \<and> (1::int) < 2"
    by simp
  note u = t[THEN conjunct1, rule_format, OF q]
  have "c_div (mul32 4 3) 5 = (4 * 3) div 5" using u by (rule conjunct1)
  then have i1: "c_div (mul32 4 3) 5 = 2" by simp
  have i2: "pixel_offset (c_div (mul32 4 3) 5) 1 0 2 1
               < int (length [10, 11, 20, 21, 30, 31 :: byte])"
    using u by blast
  have e: "resize_rows [10, 11, 20, 21, 30, 31] 1 3 5 2
       = Inr [10, 11, 10, 11, 20, 21, 20, 21, 30, 31]"
    by code_simp
  have k: "(1::int) \<le> 3" by simp
  show ?thesis by (intro conjI) (fact h(1-4) k h(6-8) i1 i2 e)+
qed

text \<open>
  Claim C10 as stated fails where the product overflows: for a buffer of 50000 rows of one
  byte and \<open>outHeight = 50000\<close> the precondition holds, and at \<open>y = 42950\<close> the machine
  computes the source row as \<open>-42949\<close>, which is not the row \<open>42950\<close> of the formula, and
  the read index \<open>-42949\<close> lies before the buffer.
\<close>

theorem resize_rows_read_overflow_counterexample:
  "int (length (replicate 50000 (0::byte))) = 1 * 50000 * 1 \<and> (1::int) \<le> 50000
   \<and> (42950::int) < 50000
   \<and> c_div (mul32 42950 50000) 50000 = - 42949
   \<and> (42950 * 50000) div 50000 = (42950::int)
   \<and> pixel_offset (c_div (mul32 42950 50000) 50000) 1 0 1 0 = - 42949
   \<and> resize_rows (replicate 50000 0) 1 50000 50000 1 = Inl OutOfBounds"
proof -
  have s: "c_div (mul32 42950 50000) 50000 = - 42949"
    by (simp add: mul32_def wrap32_def c_div_def)
  have o: "pixel_offset (- 42949) 1 0 1 0 = - 42949"
    by (simp add: pixel_offset_def mul32_def add32_def wrap32_def)
  show ?thesis using s o resize_rows_tall_block by simp
qed

end
